theory Spec2Isabelle
  imports Main "HOL-Library.Product_Lexorder"
begin

section \<open>Python primitives used by the task manager\<close>

text \<open>
  Exceptions that the modelled code can raise. A raise is a value: functions that can
  raise return \<open>py_error + 'a\<close>, with \<open>Inl\<close> for the exception.
\<close>

datatype py_error = ValueError | AttributeError | ParentTaskNotFoundError

text \<open>
  \<open>int(s)\<close> on a string, base 10. A character of the model is a code point below 256.
  Surrounding whitespace is stripped: the six ASCII blanks and, of the code points from
  128 on, the two that are whitespace, U+0085 and U+00A0. Then comes one optional sign,
  then decimal digits in which single underscores may stand between digits; below 256
  the only decimal digits are 0 to 9. Anything else raises ValueError, modelled as
  \<open>None\<close>. (The interpreter's configurable limit on the number of digits is not
  modelled.)
\<close>

definition py_isspace :: "char \<Rightarrow> bool" where
  "py_isspace c =
     (c \<in> set [CHR 0x09, CHR 0x0A, CHR 0x0B, CHR 0x0C, CHR 0x0D, CHR '' '',
               CHR 0x85, CHR 0xA0])"

definition py_strip :: "string \<Rightarrow> string" where
  "py_strip s = rev (dropWhile py_isspace (rev (dropWhile py_isspace s)))"

definition digit_table :: "(char \<times> nat) list" where
  "digit_table =
     [(CHR ''0'', 0), (CHR ''1'', 1), (CHR ''2'', 2), (CHR ''3'', 3), (CHR ''4'', 4),
      (CHR ''5'', 5), (CHR ''6'', 6), (CHR ''7'', 7), (CHR ''8'', 8), (CHR ''9'', 9)]"

definition digit_val :: "char \<Rightarrow> nat option" where
  "digit_val c = map_of digit_table c"

fun digits_acc :: "nat \<Rightarrow> bool \<Rightarrow> string \<Rightarrow> nat option" where
  "digits_acc acc us [] = (if us then None else Some acc)"
| "digits_acc acc us (c # cs) =
     (if c = CHR ''_'' then (if us then None else digits_acc acc True cs)
      else (case digit_val c of
              None \<Rightarrow> None
            | Some v \<Rightarrow> digits_acc (10 * acc + v) False cs))"

definition py_digits :: "string \<Rightarrow> nat option" where
  "py_digits s =
     (case s of
        [] \<Rightarrow> None
      | c # cs \<Rightarrow> (case digit_val c of None \<Rightarrow> None | Some v \<Rightarrow> digits_acc v False cs))"

definition py_int :: "string \<Rightarrow> int option" where
  "py_int s =
     (case py_strip s of
        [] \<Rightarrow> None
      | c # cs \<Rightarrow>
          if c = CHR ''-'' then map_option (\<lambda>n. - int n) (py_digits cs)
          else if c = CHR ''+'' then map_option int (py_digits cs)
          else map_option int (py_digits (c # cs)))"

text \<open>\<open>str(n)\<close> on an integer: its decimal numeral, with a minus sign when negative.\<close>

definition digit_char :: "nat \<Rightarrow> char" where
  "digit_char d = ''0123456789'' ! d"

fun str_nat :: "nat \<Rightarrow> string" where
  "str_nat n = (if n < 10 then [digit_char n] else str_nat (n div 10) @ [digit_char (n mod 10)])"

definition py_str :: "int \<Rightarrow> string" where
  "py_str n = (if n < 0 then CHR ''-'' # str_nat (nat (- n)) else str_nat (nat n))"

text \<open>\<open>s.split(c)\<close> with a one-character separator: always at least one part.\<close>

fun py_split :: "char \<Rightarrow> string \<Rightarrow> string list" where
  "py_split c [] = [[]]"
| "py_split c (x # xs) =
     (if x = c then [] # py_split c xs
      else (case py_split c xs of [] \<Rightarrow> [[x]] | p # ps \<Rightarrow> (x # p) # ps))"

text \<open>
  \<open>next((x for x in xs if P(x)), None)\<close> yields the first element that satisfies \<open>P\<close>.
  Python hands out the object itself, which the caller may then mutate in place, so the
  model returns the position of that element in the list.
\<close>

fun next_index :: "('a \<Rightarrow> bool) \<Rightarrow> 'a list \<Rightarrow> nat option" where
  "next_index P [] = None"
| "next_index P (x # xs) = (if P x then Some 0 else map_option Suc (next_index P xs))"

text \<open>
  \<open>max(...)\<close> over a list of integers. On the empty list Python raises ValueError; both
  calls in the source are guarded by a test that the list is not empty.
\<close>

fun py_max :: "int list \<Rightarrow> int" where
  "py_max [] = 0"
| "py_max [x] = x"
| "py_max (x # xs) = max x (py_max xs)"

section \<open>Data model\<close>

text \<open>
  Modelled from the spec: the module \<open>task_manager.data_models\<close> (the classes Task and
  Subtask and the literal types Status, Priority and Dependency) is not among the sources.
  The spec gives the fields: a Task has an id, a title, optional description, details and
  test strategy, a status, a priority, dependency references and its subtasks; a Subtask
  has an id unique within its parent, the id of its parent, a title, optional description
  and details, a status, an optional priority and dependency references. Status and
  Priority are closed enumerations; a dependency is an integer or a string.
\<close>

datatype status = Pending | InProgress | Done | Blocked | Deferred | Review

datatype priority = High | Medium | Low

datatype dependency = DepInt int | DepStr string

record subtask =
  s_id :: int
  s_title :: string
  s_description :: "string option"
  s_details :: "string option"
  s_status :: status
  s_priority :: "priority option"
  s_dependencies :: "dependency list"
  s_parent_task_id :: int

record task =
  t_id :: int
  t_title :: string
  t_description :: "string option"
  t_details :: "string option"
  t_test_strategy :: "string option"
  t_status :: status
  t_priority :: priority
  t_dependencies :: "dependency list"
  t_subtasks :: "subtask list"

text \<open>
  \<open>Status.__args__\<close>: the six status names. \<open>Status_of\<close> reads a name; \<open>None\<close> is
  \<open>new_status not in Status.__args__\<close>.
\<close>

definition Status_args :: "(string \<times> status) list" where
  "Status_args =
     [(''pending'', Pending), (''in-progress'', InProgress), (''done'', Done),
      (''blocked'', Blocked), (''deferred'', Deferred), (''review'', Review)]"

definition Status_of :: "string \<Rightarrow> status option" where
  "Status_of s = map_of Status_args s"

text \<open>What \<open>get_task_by_id\<close> returns: a Task or a Subtask of the collection.\<close>

datatype item = ITask task | ISubtask subtask

text \<open>The place of an object in the collection: task \<open>i\<close>, or subtask \<open>j\<close> of task \<open>i\<close>.\<close>

datatype item_ref = TaskAt nat | SubtaskAt nat nat

fun item_at :: "task list \<Rightarrow> item_ref \<Rightarrow> item" where
  "item_at tasks (TaskAt i) = ITask (tasks ! i)"
| "item_at tasks (SubtaskAt i j) = ISubtask (t_subtasks (tasks ! i) ! j)"

fun item_status :: "item \<Rightarrow> status" where
  "item_status (ITask t) = t_status t"
| "item_status (ISubtask st) = s_status st"

section \<open>Read operations\<close>

subsection \<open>get_task_by_id\<close>

text \<open>
  The body of the \<open>try\<close> block. \<open>Inl ValueError\<close> is a failing \<open>int(...)\<close>; \<open>Inr None\<close>
  is an explicit \<open>return None\<close>.
\<close>

definition get_task_by_id_try :: "task list \<Rightarrow> string \<Rightarrow> py_error + item_ref option" where
  "get_task_by_id_try tasks task_id_str =
     (if CHR ''.'' \<in> set task_id_str then
        (case py_split (CHR ''.'') task_id_str of
           [p0, p1] \<Rightarrow>
             if p0 = [] \<or> p1 = [] then Inr None
             else (case py_int p0 of
                     None \<Rightarrow> Inl ValueError
                   | Some parent_id \<Rightarrow>
                       (case py_int p1 of
                          None \<Rightarrow> Inl ValueError
                        | Some sub_id \<Rightarrow>
                            (case next_index (\<lambda>t. t_id t = parent_id) tasks of
                               None \<Rightarrow> Inr None
                             | Some i \<Rightarrow>
                                 if t_subtasks (tasks ! i) = [] then Inr None
                                 else Inr (map_option (SubtaskAt i)
                                        (next_index (\<lambda>st. s_id st = sub_id)
                                           (t_subtasks (tasks ! i)))))))
         | _ \<Rightarrow> Inr None)
      else (case py_int task_id_str of
              None \<Rightarrow> Inl ValueError
            | Some task_id \<Rightarrow>
                Inr (map_option TaskAt (next_index (\<lambda>t. t_id t = task_id) tasks))))"

text \<open>
  The whole function: the empty string is refused first, and both \<open>except\<close> clauses fall
  through to the final \<open>return None\<close>.
\<close>

definition get_task_by_id_ref :: "task list \<Rightarrow> string \<Rightarrow> py_error + item_ref option" where
  "get_task_by_id_ref tasks task_id_str =
     (if task_id_str = [] then Inr None
      else (case get_task_by_id_try tasks task_id_str of
              Inl e \<Rightarrow> Inr None
            | Inr r \<Rightarrow> Inr r))"

definition get_task_by_id :: "task list \<Rightarrow> string \<Rightarrow> py_error + item option" where
  "get_task_by_id tasks task_id_str =
     map_sum id (map_option (item_at tasks)) (get_task_by_id_ref tasks task_id_str)"

subsection \<open>find_next_task\<close>

text \<open>
  \<open>completed_ids\<close>: the ids of the top-level tasks whose status is done. The source
  keeps them in a set and only tests membership.
\<close>

definition completed_ids :: "task list \<Rightarrow> int list" where
  "completed_ids tasks = map t_id (filter (\<lambda>t. t_status t = Done) tasks)"

text \<open>
  The inner loop over \<open>task.dependencies\<close>, which leaves at the first dependency that is
  not met. The result is the final value of \<open>deps_met\<close>.
\<close>

fun deps_met :: "task list \<Rightarrow> int list \<Rightarrow> dependency list \<Rightarrow> py_error + bool" where
  "deps_met tasks completed [] = Inr True"
| "deps_met tasks completed (DepInt dep_id # ds) =
     (if dep_id \<notin> set completed then Inr False else deps_met tasks completed ds)"
| "deps_met tasks completed (DepStr dep_id # ds) =
     (if CHR ''.'' \<in> set dep_id then
        (case get_task_by_id tasks dep_id of
           Inl e \<Rightarrow> Inl e
         | Inr None \<Rightarrow> Inr False
         | Inr (Some dep_subtask) \<Rightarrow>
             if item_status dep_subtask \<noteq> Done then Inr False
             else deps_met tasks completed ds)
      else Inr False)"

text \<open>The outer loop, which collects the list \<open>eligible\<close> in the order of the collection.\<close>

fun eligible_loop :: "task list \<Rightarrow> int list \<Rightarrow> task list \<Rightarrow> py_error + task list" where
  "eligible_loop tasks completed [] = Inr []"
| "eligible_loop tasks completed (t # ts) =
     (if t_status t = Done then eligible_loop tasks completed ts
      else (case deps_met tasks completed (t_dependencies t) of
              Inl e \<Rightarrow> Inl e
            | Inr ok \<Rightarrow>
                (case eligible_loop tasks completed ts of
                   Inl e \<Rightarrow> Inl e
                 | Inr el \<Rightarrow> Inr (if ok \<and> t_status t \<noteq> Blocked then t # el else el))))"

text \<open>
  \<open>priority_map.get(t.priority, 2)\<close>: the default is never taken, as a priority is one of
  the three values.
\<close>

fun priority_rank :: "priority \<Rightarrow> int" where
  "priority_rank High = 3"
| "priority_rank Medium = 2"
| "priority_rank Low = 1"

definition sort_key_of :: "task \<Rightarrow> int \<times> int" where
  "sort_key_of t = (- priority_rank (t_priority t), t_id t)"

text \<open>
  Both branches for an empty \<open>eligible\<close> return None. \<open>list.sort\<close> is stable, as is
  \<open>sort_key\<close>; the result is the first element of the sorted list.
\<close>

definition find_next_task :: "task list \<Rightarrow> py_error + task option" where
  "find_next_task tasks =
     (case eligible_loop tasks (completed_ids tasks) tasks of
        Inl e \<Rightarrow> Inl e
      | Inr eligible \<Rightarrow>
          (case sort_key sort_key_of eligible of
             [] \<Rightarrow> Inr None
           | next_t # _ \<Rightarrow> Inr (Some next_t)))"

text \<open>
  The program state: the collection and the module's list \<open>task_execution_history\<close>.
\<close>

record history_entry =
  h_task_id :: string
  h_old_status :: status
  h_new_status :: status
  h_success :: bool

record store =
  tasks_of :: "task list"
  task_execution_history :: "history_entry list"

subsection \<open>The read operations, statement by statement, on the store\<close>

text \<open>
  The same two functions once more, now with the store passed through every statement
  that touches the collection, so that what they do to it can be stated. The only
  accesses are \<open>len\<close> of the list (the bound of an iteration) and the read of the object
  at a position, both on the store as it is at that moment. The local objects
  \<open>completed_ids\<close> and \<open>eligible\<close> are created by the call and are values of the
  model; \<open>eligible.sort\<close> orders that local list.
\<close>

definition read_len :: "store \<Rightarrow> nat \<times> store" where
  "read_len \<sigma> = (length (tasks_of \<sigma>), \<sigma>)"

definition read_task :: "nat \<Rightarrow> store \<Rightarrow> task \<times> store" where
  "read_task i \<sigma> = (tasks_of \<sigma> ! i, \<sigma>)"

definition read_item :: "item_ref \<Rightarrow> store \<Rightarrow> item \<times> store" where
  "read_item r \<sigma> = (item_at (tasks_of \<sigma>) r, \<sigma>)"

text \<open>
  \<open>next((t for t in tasks if t.id == task_id), None)\<close>: the generator visits the
  positions from \<open>i\<close> on, \<open>k\<close> of them, and stops at the first task with the id.
\<close>

fun next_task_st :: "int \<Rightarrow> nat \<Rightarrow> nat \<Rightarrow> store \<Rightarrow> nat option \<times> store" where
  "next_task_st task_id i 0 \<sigma> = (None, \<sigma>)"
| "next_task_st task_id i (Suc k) \<sigma> =
     (case read_task i \<sigma> of
        (t, \<sigma>1) \<Rightarrow>
          if t_id t = task_id then (Some i, \<sigma>1) else next_task_st task_id (Suc i) k \<sigma>1)"

definition find_task_st :: "int \<Rightarrow> store \<Rightarrow> nat option \<times> store" where
  "find_task_st task_id \<sigma> =
     (case read_len \<sigma> of (n, \<sigma>1) \<Rightarrow> next_task_st task_id 0 n \<sigma>1)"

definition get_task_by_id_try_st ::
  "string \<Rightarrow> store \<Rightarrow> (py_error + item_ref option) \<times> store" where
  "get_task_by_id_try_st task_id_str \<sigma> =
     (if CHR ''.'' \<in> set task_id_str then
        (case py_split (CHR ''.'') task_id_str of
           [p0, p1] \<Rightarrow>
             if p0 = [] \<or> p1 = [] then (Inr None, \<sigma>)
             else (case py_int p0 of
                     None \<Rightarrow> (Inl ValueError, \<sigma>)
                   | Some parent_id \<Rightarrow>
                       (case py_int p1 of
                          None \<Rightarrow> (Inl ValueError, \<sigma>)
                        | Some sub_id \<Rightarrow>
                            (case find_task_st parent_id \<sigma> of
                               (None, \<sigma>1) \<Rightarrow> (Inr None, \<sigma>1)
                             | (Some i, \<sigma>1) \<Rightarrow>
                                 (case read_task i \<sigma>1 of
                                    (parent_task, \<sigma>2) \<Rightarrow>
                                      if t_subtasks parent_task = [] then (Inr None, \<sigma>2)
                                      else (Inr (map_option (SubtaskAt i)
                                              (next_index (\<lambda>st. s_id st = sub_id)
                                                 (t_subtasks parent_task))), \<sigma>2)))))
         | _ \<Rightarrow> (Inr None, \<sigma>))
      else (case py_int task_id_str of
              None \<Rightarrow> (Inl ValueError, \<sigma>)
            | Some task_id \<Rightarrow>
                (case find_task_st task_id \<sigma> of
                   (found, \<sigma>1) \<Rightarrow> (Inr (map_option TaskAt found), \<sigma>1))))"

definition get_task_by_id_st ::
  "string \<Rightarrow> store \<Rightarrow> (py_error + item option) \<times> store" where
  "get_task_by_id_st task_id_str \<sigma> =
     (if task_id_str = [] then (Inr None, \<sigma>)
      else (case get_task_by_id_try_st task_id_str \<sigma> of
              (Inl e, \<sigma>1) \<Rightarrow> (Inr None, \<sigma>1)
            | (Inr None, \<sigma>1) \<Rightarrow> (Inr None, \<sigma>1)
            | (Inr (Some r), \<sigma>1) \<Rightarrow>
                (case read_item r \<sigma>1 of (it, \<sigma>2) \<Rightarrow> (Inr (Some it), \<sigma>2))))"

text \<open>The first loop of \<open>find_next_task\<close>, which fills \<open>completed_ids\<close>.\<close>

fun completed_ids_st :: "nat \<Rightarrow> nat \<Rightarrow> int list \<Rightarrow> store \<Rightarrow> int list \<times> store" where
  "completed_ids_st i 0 completed \<sigma> = (completed, \<sigma>)"
| "completed_ids_st i (Suc k) completed \<sigma> =
     (case read_task i \<sigma> of
        (t, \<sigma>1) \<Rightarrow>
          completed_ids_st (Suc i) k
            (if t_status t = Done then completed @ [t_id t] else completed) \<sigma>1)"

text \<open>The loop over the dependencies of one task, with its call of \<open>get_task_by_id\<close>.\<close>

fun deps_met_st ::
  "int list \<Rightarrow> dependency list \<Rightarrow> store \<Rightarrow> (py_error + bool) \<times> store" where
  "deps_met_st completed [] \<sigma> = (Inr True, \<sigma>)"
| "deps_met_st completed (DepInt dep_id # ds) \<sigma> =
     (if dep_id \<notin> set completed then (Inr False, \<sigma>) else deps_met_st completed ds \<sigma>)"
| "deps_met_st completed (DepStr dep_id # ds) \<sigma> =
     (if CHR ''.'' \<in> set dep_id then
        (case get_task_by_id_st dep_id \<sigma> of
           (Inl e, \<sigma>1) \<Rightarrow> (Inl e, \<sigma>1)
         | (Inr None, \<sigma>1) \<Rightarrow> (Inr False, \<sigma>1)
         | (Inr (Some dep_subtask), \<sigma>1) \<Rightarrow>
             if item_status dep_subtask \<noteq> Done then (Inr False, \<sigma>1)
             else deps_met_st completed ds \<sigma>1)
      else (Inr False, \<sigma>))"

text \<open>The second loop, which appends to \<open>eligible\<close>.\<close>

fun eligible_st ::
  "int list \<Rightarrow> nat \<Rightarrow> nat \<Rightarrow> task list \<Rightarrow> store \<Rightarrow> (py_error + task list) \<times> store" where
  "eligible_st completed i 0 eligible \<sigma> = (Inr eligible, \<sigma>)"
| "eligible_st completed i (Suc k) eligible \<sigma> =
     (case read_task i \<sigma> of
        (t, \<sigma>1) \<Rightarrow>
          if t_status t = Done then eligible_st completed (Suc i) k eligible \<sigma>1
          else (case deps_met_st completed (t_dependencies t) \<sigma>1 of
                  (Inl e, \<sigma>2) \<Rightarrow> (Inl e, \<sigma>2)
                | (Inr ok, \<sigma>2) \<Rightarrow>
                    eligible_st completed (Suc i) k
                      (if ok \<and> t_status t \<noteq> Blocked then eligible @ [t] else eligible)
                      \<sigma>2))"

definition find_next_task_st :: "store \<Rightarrow> (py_error + task option) \<times> store" where
  "find_next_task_st \<sigma> =
     (case read_len \<sigma> of
        (n, \<sigma>1) \<Rightarrow>
          (case completed_ids_st 0 n [] \<sigma>1 of
             (completed, \<sigma>2) \<Rightarrow>
               (case eligible_st completed 0 n [] \<sigma>2 of
                  (Inl e, \<sigma>3) \<Rightarrow> (Inl e, \<sigma>3)
                | (Inr eligible, \<sigma>3) \<Rightarrow>
                    (case sort_key sort_key_of eligible of
                       [] \<Rightarrow> (Inr None, \<sigma>3)
                     | next_t # _ \<Rightarrow> (Inr (Some next_t), \<sigma>3)))))"

section \<open>Write operations\<close>

subsection \<open>set_task_status\<close>

text \<open>\<open>item.status = new_status\<close>, on the object at the given place.\<close>

fun set_item_status :: "task list \<Rightarrow> item_ref \<Rightarrow> status \<Rightarrow> task list" where
  "set_item_status tasks (TaskAt i) new = tasks[i := (tasks ! i)\<lparr>t_status := new\<rparr>]"
| "set_item_status tasks (SubtaskAt i j) new =
     tasks[i := (tasks ! i)\<lparr>t_subtasks :=
        (t_subtasks (tasks ! i))[j := (t_subtasks (tasks ! i) ! j)\<lparr>s_status := new\<rparr>]\<rparr>]"

text \<open>
  Modelled from the spec: the class Task is not among the sources, and the spec gives it
  no parent id (only a Subtask has one). The source reads \<open>parent_task.parent_task_id\<close>
  right after \<open>parent_task.status = 'done'\<close>; on a Task that attribute does not exist, so
  the read raises AttributeError, with the parent already set to done.

  The function is the status propagation that follows the assignment and the history
  record: \<open>isinstance(item, Task)\<close> is a place \<open>TaskAt\<close>, \<open>isinstance(item, Subtask)\<close>
  a place \<open>SubtaskAt\<close>.
\<close>

fun propagate :: "task list \<Rightarrow> item_ref \<Rightarrow> status \<Rightarrow> (py_error + bool) \<times> task list" where
  "propagate tasks (TaskAt i) new =
     (if new = Done \<and> t_subtasks (tasks ! i) \<noteq> [] then
        (Inr True, tasks[i := (tasks ! i)\<lparr>t_subtasks :=
           map (\<lambda>st. if s_status st \<noteq> Done then st\<lparr>s_status := Done\<rparr> else st)
             (t_subtasks (tasks ! i))\<rparr>])
      else (Inr True, tasks))"
| "propagate tasks (SubtaskAt i j) new =
     (if new = Done then
        (case next_index (\<lambda>t. t_id t = s_parent_task_id (t_subtasks (tasks ! i) ! j)) tasks of
           None \<Rightarrow> (Inr True, tasks)
         | Some k \<Rightarrow>
             if t_subtasks (tasks ! k) \<noteq> [] then
               if list_all (\<lambda>st. s_status st = Done) (t_subtasks (tasks ! k))
                  \<and> t_status (tasks ! k) \<noteq> Done
               then (Inl AttributeError, tasks[k := (tasks ! k)\<lparr>t_status := Done\<rparr>])
               else (Inr True, tasks)
             else (Inr True, tasks))
      else (Inr True, tasks))"

text \<open>
  The history record keeps the id string, the old and the new status and the success
  flag; its three time fields are readings of the clock and are left out.
\<close>

definition set_task_status ::
  "store \<Rightarrow> string \<Rightarrow> string \<Rightarrow> (py_error + bool) \<times> store" where
  "set_task_status \<sigma> task_id_str new_status =
     (case Status_of new_status of
        None \<Rightarrow> (Inr False, \<sigma>)
      | Some new \<Rightarrow>
          (case get_task_by_id_ref (tasks_of \<sigma>) task_id_str of
             Inl e \<Rightarrow> (Inl e, \<sigma>)
           | Inr None \<Rightarrow> (Inr False, \<sigma>)
           | Inr (Some item) \<Rightarrow>
               let old_status = item_status (item_at (tasks_of \<sigma>) item) in
               if old_status = new then (Inr True, \<sigma>)
               else
                 let tasks1 = set_item_status (tasks_of \<sigma>) item new;
                     history1 = task_execution_history \<sigma> @
                       [\<lparr>h_task_id = task_id_str, h_old_status = old_status,
                         h_new_status = new, h_success = True\<rparr>];
                     (res, tasks2) = propagate tasks1 item new
                 in (res, \<lparr>tasks_of = tasks2, task_execution_history = history1\<rparr>)))"

subsection \<open>add_new_task and add_subtask\<close>

definition dep_str :: "dependency \<Rightarrow> string" where
  "dep_str d = (case d of DepInt n \<Rightarrow> py_str n | DepStr s \<Rightarrow> s)"

text \<open>The loop that keeps the dependencies \<open>get_task_by_id\<close> can find.\<close>

fun valid_deps :: "task list \<Rightarrow> dependency list \<Rightarrow> py_error + dependency list" where
  "valid_deps tasks [] = Inr []"
| "valid_deps tasks (dep_id # ds) =
     (case get_task_by_id tasks (dep_str dep_id) of
        Inl e \<Rightarrow> Inl e
      | Inr found \<Rightarrow>
          (case valid_deps tasks ds of
             Inl e \<Rightarrow> Inl e
           | Inr vs \<Rightarrow> Inr (if found \<noteq> None then dep_id # vs else vs)))"

text \<open>
  Modelled from the spec: the fields the constructors are not given take the defaults of
  the missing classes: status pending, no details, no test strategy, no subtasks.
\<close>

definition add_new_task ::
  "task list \<Rightarrow> string \<Rightarrow> string option \<Rightarrow> priority \<Rightarrow> dependency list
     \<Rightarrow> (py_error + task) \<times> task list" where
  "add_new_task tasks title description priority dependencies =
     (let new_id = (if tasks = [] then 1 else py_max (map t_id tasks) + 1) in
      case valid_deps tasks dependencies of
        Inl e \<Rightarrow> (Inl e, tasks)
      | Inr vs \<Rightarrow>
          let new_task = \<lparr>t_id = new_id, t_title = title, t_description = description,
                t_details = None, t_test_strategy = None, t_status = Pending,
                t_priority = priority, t_dependencies = vs, t_subtasks = []\<rparr>
          in (Inr new_task, tasks @ [new_task]))"

definition add_subtask ::
  "task list \<Rightarrow> int \<Rightarrow> string \<Rightarrow> string option \<Rightarrow> priority \<Rightarrow> dependency list
     \<Rightarrow> (py_error + subtask) \<times> task list" where
  "add_subtask tasks parent_task_id title description priority dependencies =
     (case next_index (\<lambda>t. t_id t = parent_task_id) tasks of
        None \<Rightarrow> (Inl ParentTaskNotFoundError, tasks)
      | Some i \<Rightarrow>
          let parent_task = tasks ! i;
              new_id = (if t_subtasks parent_task = [] then 1
                        else py_max (map s_id (t_subtasks parent_task)) + 1)
          in case valid_deps tasks dependencies of
               Inl e \<Rightarrow> (Inl e, tasks)
             | Inr vs \<Rightarrow>
                 let new_subtask = \<lparr>s_id = new_id, s_title = title,
                       s_description = description, s_details = None, s_status = Pending,
                       s_priority = Some priority, s_dependencies = vs,
                       s_parent_task_id = parent_task_id\<rparr>
                 in (Inr new_subtask,
                     tasks[i := parent_task\<lparr>t_subtasks :=
                        t_subtasks parent_task @ [new_subtask]\<rparr>]))"

section \<open>Dependency graph analyzer\<close>

text \<open>
  Modelled from the spec: the module \<open>task_manager.dependencies\<close> with
  \<open>find_circular_dependencies\<close> is not among the sources (only its tests and its caller
  are). The spec gives: one node per Task, labelled by its id as text, and one per
  Subtask, labelled "parentId.subId"; for each node an edge to every dependency reference
  it declares, only if the referenced node exists in the collection; a depth-first
  traversal that tracks the stack of the current path and the set of fully visited nodes;
  an edge back to a node on the stack signals a cycle, and the path from that node back to
  itself is returned; none is returned when no cycle is found.
\<close>

definition task_label :: "task \<Rightarrow> string" where
  "task_label t = py_str (t_id t)"

definition subtask_label :: "task \<Rightarrow> subtask \<Rightarrow> string" where
  "subtask_label t st = py_str (t_id t) @ ''.'' @ py_str (s_id st)"

definition graph_nodes :: "task list \<Rightarrow> (string \<times> dependency list) list" where
  "graph_nodes tasks =
     concat (map (\<lambda>t. (task_label t, t_dependencies t) #
                       map (\<lambda>st. (subtask_label t st, s_dependencies st)) (t_subtasks t)) tasks)"

definition build_graph :: "task list \<Rightarrow> (string \<times> string list) list" where
  "build_graph tasks =
     (let nodes = graph_nodes tasks; labels = map fst nodes
      in map (\<lambda>(l, ds). (l, filter (\<lambda>m. m \<in> set labels) (map dep_str ds))) nodes)"

definition successors :: "(string \<times> string list) list \<Rightarrow> string \<Rightarrow> string list" where
  "successors g n = concat (map snd (filter (\<lambda>e. fst e = n) g))"

definition cycle_path :: "string list \<Rightarrow> string \<Rightarrow> string list" where
  "cycle_path path n = n # rev (takeWhile (\<lambda>x. x \<noteq> n) path) @ [n]"

text \<open>
  The traversal: \<open>Inl\<close> carries the reported cycle, \<open>Inr\<close> the fully visited nodes. Each
  call of \<open>visit\<close> that goes deeper puts a node of the graph on the path that was not on
  it, which bounds the depth.
\<close>

function visit :: "(string \<times> string list) list \<Rightarrow> string list \<Rightarrow> string list \<Rightarrow> string
                     \<Rightarrow> string list + string list"
  and visit_all :: "(string \<times> string list) list \<Rightarrow> string list \<Rightarrow> string list \<Rightarrow> string list
                     \<Rightarrow> string list + string list" where
  "visit g path visited n =
     (if n \<in> set path then Inl (cycle_path path n)
      else if n \<in> set visited then Inr visited
      else if n \<notin> fst ` set g then Inr visited
      else (case visit_all g (n # path) visited (successors g n) of
              Inl c \<Rightarrow> Inl c
            | Inr v \<Rightarrow> Inr (n # v)))"
| "visit_all g path visited [] = Inr visited"
| "visit_all g path visited (m # ms) =
     (case visit g path visited m of
        Inl c \<Rightarrow> Inl c
      | Inr v \<Rightarrow> visit_all g path v ms)"
  by pat_completeness auto
termination
proof (relation "measures
     [\<lambda>x. case x of
          Inl (g, path, visited, n) \<Rightarrow> card (fst ` set g - set path)
        | Inr (g, path, visited, ms) \<Rightarrow> card (fst ` set g - set path),
      \<lambda>x. case x of
          Inl (g, path, visited, n) \<Rightarrow> 0
        | Inr (g, path, visited, ms) \<Rightarrow> Suc (length ms)]", goal_cases)
  case 1
  show ?case by simp
next
  case (2 g path visited n)
  then have "fst ` set g - set (n # path) \<subset> fst ` set g - set path"
    by auto
  then have "card (fst ` set g - set (n # path)) < card (fst ` set g - set path)"
    by (intro psubset_card_mono) auto
  then show ?case by simp
next
  case 3
  show ?case by simp
next
  case 4
  show ?case by simp
qed

definition find_circular_dependencies :: "task list \<Rightarrow> string list option" where
  "find_circular_dependencies tasks =
     (let g = build_graph tasks
      in case visit_all g [] [] (map fst g) of Inl c \<Rightarrow> Some c | Inr v \<Rightarrow> None)"

text \<open>
  The edges of the graph as a list of pairs of labels: from a node to each dependency it
  declares whose label is the label of a node.
\<close>

definition dep_edges :: "task list \<Rightarrow> (string \<times> string) list" where
  "dep_edges tasks =
     (let nodes = graph_nodes tasks
      in concat (map (\<lambda>(a, ds). map (\<lambda>b. (a, b))
                   (filter (\<lambda>b. b \<in> fst ` set nodes) (map dep_str ds))) nodes))"

section \<open>Predicates of the claims\<close>

text \<open>
  When the loop of \<open>find_next_task\<close> appends a task to \<open>eligible\<close>: its status is neither
  done nor blocked, and each of its dependencies is met, an integer by the id of a done
  task, a string with a dot by a found item that is done.
\<close>

definition dep_satisfied :: "task list \<Rightarrow> dependency \<Rightarrow> bool" where
  "dep_satisfied tasks d =
     (case d of
        DepInt n \<Rightarrow> n \<in> set (completed_ids tasks)
      | DepStr s \<Rightarrow>
          CHR ''.'' \<in> set s \<and>
          (case get_task_by_id tasks s of
             Inr (Some it) \<Rightarrow> item_status it = Done
           | _ \<Rightarrow> False))"

definition eligible_task :: "task list \<Rightarrow> task \<Rightarrow> bool" where
  "eligible_task tasks t =
     (t_status t \<noteq> Done \<and> t_status t \<noteq> Blocked
      \<and> list_all (dep_satisfied tasks) (t_dependencies t))"

text \<open>
  Task ids are pairwise distinct, and so are the subtask ids within each task.
\<close>

definition ids_unique :: "task list \<Rightarrow> bool" where
  "ids_unique tasks =
     (distinct (map t_id tasks)
      \<and> list_all (\<lambda>t. distinct (map s_id (t_subtasks t))) tasks)"

section \<open>Collections of the tests\<close>

text \<open>
  The constructor calls of the tests, \<open>Task(id=.., title=.., ...)\<close> and
  \<open>Subtask(id=.., title=.., parent_task_id=.., ...)\<close>, with the optional texts absent.
\<close>

definition Task ::
  "int \<Rightarrow> string \<Rightarrow> status \<Rightarrow> priority \<Rightarrow> dependency list \<Rightarrow> subtask list \<Rightarrow> task" where
  "Task i title st p ds subs =
     \<lparr>t_id = i, t_title = title, t_description = None, t_details = None,
      t_test_strategy = None, t_status = st, t_priority = p, t_dependencies = ds,
      t_subtasks = subs\<rparr>"

definition Subtask :: "int \<Rightarrow> string \<Rightarrow> status \<Rightarrow> dependency list \<Rightarrow> int \<Rightarrow> subtask" where
  "Subtask i title st ds parent =
     \<lparr>s_id = i, s_title = title, s_description = None, s_details = None, s_status = st,
      s_priority = None, s_dependencies = ds, s_parent_task_id = parent\<rparr>"

text \<open>The fixture \<open>sample_tasks_list\<close> of \<open>tests/unit/test_core.py\<close>.\<close>

definition sample_tasks_list :: "task list" where
  "sample_tasks_list =
     [Task 1 ''Task 1'' Done High [] [],
      Task 2 ''Task 2'' Pending Medium [DepInt 1] [],
      Task 3 ''Task 3'' Pending High [DepInt 1]
        [Subtask 1 ''Sub 3.1'' Pending [] 3,
         Subtask 2 ''Sub 3.2'' Pending [DepInt 1] 3],
      Task 4 ''Task 4'' Pending Low [DepInt 2, DepStr ''3.1''] []]"

definition sample_store :: store where
  "sample_store = \<lparr>tasks_of = sample_tasks_list, task_execution_history = []\<rparr>"

text \<open>A task with one pending subtask, as \<open>tests/unit/test_dependencies.py\<close> builds them.\<close>

definition one_subtask_store :: "status \<Rightarrow> store" where
  "one_subtask_store st =
     \<lparr>tasks_of = [Task 1 ''T1'' Pending Medium [] [Subtask 1 ''S1.1'' st [] 1]],
      task_execution_history = []\<rparr>"

section \<open>Auxiliary facts\<close>

lemma length_py_split: "length (py_split c s) = Suc (count_list s c)"
  by (induction s) (auto split: list.splits)

lemma py_split_no_sep: "c \<notin> set s \<Longrightarrow> py_split c s = [s]"
  by (induction s) auto

lemma py_split_append: "c \<notin> set a \<Longrightarrow> py_split c (a @ c # b) = a # py_split c b"
  by (induction a) auto

lemma count_list_pos: "c \<in> set a \<Longrightarrow> 0 < count_list a c"
  by (induction a) auto

lemma next_index_None_iff: "next_index P xs = None \<longleftrightarrow> (\<forall>x \<in> set xs. \<not> P x)"
  by (induction xs) auto

lemma next_index_Some:
  "next_index P xs = Some i \<Longrightarrow> i < length xs \<and> P (xs ! i) \<and> (\<forall>j < i. \<not> P (xs ! j))"
proof (induction xs arbitrary: i)
  case Nil
  then show ?case by simp
next
  case (Cons x xs)
  show ?case
  proof (cases "P x")
    case True
    with Cons.prems show ?thesis by simp
  next
    case False
    with Cons.prems obtain k where k: "next_index P xs = Some k" "i = Suc k"
      by auto
    from Cons.IH[OF k(1)] False k(2) show ?thesis
      by (auto simp: nth_Cons split: nat.splits)
  qed
qed

lemma Status_of_None_iff:
  "Status_of s = None \<longleftrightarrow>
     s \<notin> set [''pending'', ''in-progress'', ''done'', ''blocked'', ''deferred'', ''review'']"
  by (simp add: Status_of_def Status_args_def)

lemmas py_int_simps = py_int_def py_strip_def py_isspace_def py_digits_def digit_val_def
  digit_table_def

lemmas get_simps = get_task_by_id_def get_task_by_id_ref_def get_task_by_id_try_def py_int_simps

lemmas sample_simps = sample_store_def sample_tasks_list_def one_subtask_store_def
  Task_def Subtask_def

subsection \<open>get_task_by_id catches what it raises\<close>

lemma get_task_by_id_try_parts:
  "length (py_split (CHR ''.'') s) \<noteq> 2 \<Longrightarrow> CHR ''.'' \<in> set s
     \<Longrightarrow> get_task_by_id_try tasks s = Inr None"
  unfolding get_task_by_id_try_def by (auto split: list.splits)

lemma get_task_by_id_ref_returns: "\<exists>r. get_task_by_id_ref tasks s = Inr r"
  unfolding get_task_by_id_ref_def by (auto split: sum.splits)

lemma get_task_by_id_returns: "\<exists>r. get_task_by_id tasks s = Inr r"
  using get_task_by_id_ref_returns[of tasks s] unfolding get_task_by_id_def by auto

lemma get_task_by_id_None_iff:
  "get_task_by_id tasks s = Inr None \<longleftrightarrow> get_task_by_id_ref tasks s = Inr None"
  unfolding get_task_by_id_def by (cases "get_task_by_id_ref tasks s") auto

lemma get_task_by_id_try_bad:
  assumes "s = a @ CHR ''.'' # b"
    and "a = [] \<or> b = [] \<or> py_int a = None \<or> py_int b = None"
  shows "get_task_by_id_try tasks s = Inl ValueError \<or> get_task_by_id_try tasks s = Inr None"
proof (cases "CHR ''.'' \<in> set a \<or> CHR ''.'' \<in> set b")
  case True
  then have "1 < count_list s (CHR ''.'')"
    using assms(1) count_list_pos[of "CHR ''.''" a] count_list_pos[of "CHR ''.''" b]
    by (auto simp: count_list_append)
  then have "length (py_split (CHR ''.'') s) \<noteq> 2"
    by (simp add: length_py_split)
  moreover have "CHR ''.'' \<in> set s" using assms(1) by simp
  ultimately show ?thesis by (simp add: get_task_by_id_try_parts)
next
  case False
  then have sp: "py_split (CHR ''.'') s = [a, b]"
    using assms(1) by (simp add: py_split_append py_split_no_sep)
  have "CHR ''.'' \<in> set s" using assms(1) by simp
  then show ?thesis
    using assms(2) sp unfolding get_task_by_id_try_def
    by (auto split: option.splits)
qed

subsection \<open>What \<open>py_int\<close> refuses\<close>

lemma digits_acc_bad_char:
  "c \<in> set cs \<Longrightarrow> digit_val c = None \<Longrightarrow> c \<noteq> CHR ''_'' \<Longrightarrow> digits_acc acc us cs = None"
proof (induction cs arbitrary: acc us)
  case Nil
  then show ?case by simp
next
  case (Cons x xs)
  show ?case
  proof (cases "x = c")
    case True
    then show ?thesis using Cons.prems by simp
  next
    case False
    then have "c \<in> set xs" using Cons.prems(1) by simp
    then have "\<And>a u. digits_acc a u xs = None"
      using Cons.IH Cons.prems(2,3) by blast
    then show ?thesis by (simp split: option.splits)
  qed
qed

lemma py_digits_bad_char:
  assumes "c \<in> set s" "digit_val c = None" "c \<noteq> CHR ''_''"
  shows "py_digits s = None"
proof (cases s)
  case Nil
  then show ?thesis by (simp add: py_digits_def)
next
  case (Cons x xs)
  show ?thesis
  proof (cases "x = c")
    case True
    then show ?thesis using Cons assms(2) by (simp add: py_digits_def)
  next
    case False
    then have "c \<in> set xs" using assms(1) Cons by simp
    then have "\<And>a. digits_acc a False xs = None"
      using digits_acc_bad_char assms(2,3) by blast
    then show ?thesis using Cons by (simp add: py_digits_def split: option.splits)
  qed
qed

lemma dropWhile_keeps: "c \<in> set s \<Longrightarrow> \<not> P c \<Longrightarrow> c \<in> set (dropWhile P s)"
  by (induction s) auto

lemma py_strip_keeps: "c \<in> set s \<Longrightarrow> \<not> py_isspace c \<Longrightarrow> c \<in> set (py_strip s)"
  unfolding py_strip_def
  using dropWhile_keeps[of c "rev (dropWhile py_isspace s)" py_isspace]
    dropWhile_keeps[of c s py_isspace]
  by simp

lemma py_int_non_numeric:
  assumes "c \<in> set s" and "digit_val c = None" and "c \<noteq> CHR ''_''"
    and "c \<noteq> CHR ''+''" and "c \<noteq> CHR ''-''" and "\<not> py_isspace c"
  shows "py_int s = None"
proof -
  have in_strip: "c \<in> set (py_strip s)"
    using assms(1,6) by (rule py_strip_keeps)
  show ?thesis
  proof (cases "py_strip s")
    case Nil
    then show ?thesis by (simp add: py_int_def)
  next
    case (Cons x xs)
    have whole: "py_digits (x # xs) = None"
      using py_digits_bad_char[of c "x # xs"] in_strip Cons assms(2,3) by simp
    have rest: "py_digits xs = None" if "x = CHR ''-'' \<or> x = CHR ''+''"
    proof -
      have "c \<in> set xs" using in_strip Cons that assms(4,5) by auto
      then show ?thesis using py_digits_bad_char assms(2,3) by blast
    qed
    show ?thesis using Cons whole rest by (simp add: py_int_def)
  qed
qed

section \<open>The identifier resolver on malformed input\<close>

text \<open>
  Claim C6. For every collection and every malformed identifier string,
  \<open>get_task_by_id\<close> returns None and does not raise. Malformed is: the empty string; a
  string without a dot that \<open>int\<close> does not read; a string with a character that is no
  digit, underscore, sign, dot or whitespace; a string with more than one dot; a string
  \<open>a.b\<close> in which \<open>a\<close> or \<open>b\<close> is empty or is not read by \<open>int\<close>.
\<close>

theorem get_task_by_id_malformed:
  assumes "s = []
     \<or> (CHR ''.'' \<notin> set s \<and> py_int s = None)
     \<or> (\<exists>c \<in> set s. digit_val c = None \<and> c \<notin> set ''_+-.'' \<and> \<not> py_isspace c)
     \<or> 1 < count_list s (CHR ''.'')
     \<or> (\<exists>a b. s = a @ CHR ''.'' # b
            \<and> (a = [] \<or> b = [] \<or> py_int a = None \<or> py_int b = None))"
  shows "get_task_by_id tasks s = Inr None"
proof -
  let ?G = "s = [] \<or> get_task_by_id_try tasks s = Inl ValueError
              \<or> get_task_by_id_try tasks s = Inr None"
  have char_case: "(CHR ''.'' \<notin> set s \<and> py_int s = None)
      \<or> (\<exists>a b. s = a @ CHR ''.'' # b \<and> (py_int a = None \<or> py_int b = None))"
    if c: "c \<in> set s" "digit_val c = None" "c \<notin> set ''_+-.''" "\<not> py_isspace c" for c
  proof (cases "CHR ''.'' \<in> set s")
    case False
    then show ?thesis using py_int_non_numeric[of c s] c by simp
  next
    case True
    then obtain a b where ab: "s = a @ CHR ''.'' # b"
      by (meson split_list)
    then have "c \<in> set a \<or> c \<in> set b" using c(1,3) by auto
    then have "py_int a = None \<or> py_int b = None"
      using py_int_non_numeric[of c a] py_int_non_numeric[of c b] c(2,3,4) by auto
    then show ?thesis using ab by blast
  qed
  have nonnum: ?G if "CHR ''.'' \<notin> set s" "py_int s = None"
    using that by (simp add: get_task_by_id_try_def)
  have part: ?G if "s = a @ CHR ''.'' # b"
      "a = [] \<or> b = [] \<or> py_int a = None \<or> py_int b = None" for a b
    using get_task_by_id_try_bad[OF that] by blast
  have many: ?G if m: "1 < count_list s (CHR ''.'')"
  proof -
    have "CHR ''.'' \<in> set s"
      using m by (metis count_list_0_iff not_less_zero)
    moreover have "length (py_split (CHR ''.'') s) \<noteq> 2"
      using m by (simp add: length_py_split)
    ultimately show ?thesis by (simp add: get_task_by_id_try_parts)
  qed
  have char: ?G
    if "\<exists>c \<in> set s. digit_val c = None \<and> c \<notin> set ''_+-.'' \<and> \<not> py_isspace c"
  proof -
    from that obtain c where "c \<in> set s" "digit_val c = None" "c \<notin> set ''_+-.''"
        "\<not> py_isspace c"
      by blast
    from char_case[OF this] show ?thesis
    proof
      assume "CHR ''.'' \<notin> set s \<and> py_int s = None"
      then show ?thesis using nonnum by blast
    next
      assume "\<exists>a b. s = a @ CHR ''.'' # b \<and> (py_int a = None \<or> py_int b = None)"
      then obtain a b where "s = a @ CHR ''.'' # b" "py_int a = None \<or> py_int b = None"
        by blast
      then show ?thesis using part[of a b] by blast
    qed
  qed
  from assms have ?G
  proof (elim disjE)
    assume "s = []"
    then show ?G by simp
  next
    assume "CHR ''.'' \<notin> set s \<and> py_int s = None"
    then show ?G using nonnum by blast
  next
    assume "\<exists>c \<in> set s. digit_val c = None \<and> c \<notin> set ''_+-.'' \<and> \<not> py_isspace c"
    then show ?G by (rule char)
  next
    assume "1 < count_list s (CHR ''.'')"
    then show ?G by (rule many)
  next
    assume "\<exists>a b. s = a @ CHR ''.'' # b
            \<and> (a = [] \<or> b = [] \<or> py_int a = None \<or> py_int b = None)"
    then obtain a b where "s = a @ CHR ''.'' # b"
        "a = [] \<or> b = [] \<or> py_int a = None \<or> py_int b = None"
      by blast
    then show ?G by (rule part)
  qed
  then show ?thesis
    unfolding get_task_by_id_def get_task_by_id_ref_def by auto
qed

theorem get_task_by_id_malformed_witness:
  "get_task_by_id sample_tasks_list '''' = Inr None
   \<and> get_task_by_id sample_tasks_list ''invalid'' = Inr None
   \<and> get_task_by_id sample_tasks_list ''3.x'' = Inr None
   \<and> get_task_by_id sample_tasks_list ''1.2.3'' = Inr None
   \<and> get_task_by_id sample_tasks_list ''1.'' = Inr None
   \<and> get_task_by_id sample_tasks_list ''.1'' = Inr None
   \<and> get_task_by_id sample_tasks_list ''3.1_'' = Inr None"
proof -
  have a: "\<exists>c \<in> set ''invalid''. digit_val c = None \<and> c \<notin> set ''_+-.'' \<and> \<not> py_isspace c"
    by (simp add: py_int_simps)
  have a': "\<exists>c \<in> set ''3.x''. digit_val c = None \<and> c \<notin> set ''_+-.'' \<and> \<not> py_isspace c"
    by (simp add: py_int_simps)
  have b: "1 < count_list ''1.2.3'' (CHR ''.'')" by simp
  have c: "''1.'' = ''1'' @ CHR ''.'' # [] \<and> ([] :: string) = []" by simp
  have d: "''.1'' = [] @ CHR ''.'' # ''1''" by simp
  have e: "''3.1_'' = ''3'' @ CHR ''.'' # ''1_'' \<and> py_int ''1_'' = None"
    by (simp add: py_int_simps)
  show ?thesis
    using get_task_by_id_malformed[of "''''" sample_tasks_list]
      get_task_by_id_malformed[of "''invalid''" sample_tasks_list] a
      get_task_by_id_malformed[of "''3.x''" sample_tasks_list] a'
      get_task_by_id_malformed[of "''1.2.3''" sample_tasks_list] b
      get_task_by_id_malformed[of "''1.''" sample_tasks_list] c
      get_task_by_id_malformed[of "''.1''" sample_tasks_list] d
      get_task_by_id_malformed[of "''3.1_''" sample_tasks_list] e
    by blast
qed

section \<open>Status changes\<close>

text \<open>
  Claim C3. If the new status is not one of the six status names, or the identifier
  resolves to nothing, \<open>set_task_status\<close> returns False and the collection and the
  execution history are what they were.
\<close>

theorem set_task_status_rejects:
  assumes "new_status \<notin> set [''pending'', ''in-progress'', ''done'', ''blocked'',
                               ''deferred'', ''review'']
           \<or> get_task_by_id (tasks_of \<sigma>) task_id_str = Inr None"
  shows "set_task_status \<sigma> task_id_str new_status = (Inr False, \<sigma>)"
proof (cases "Status_of new_status")
  case None
  then show ?thesis by (simp add: set_task_status_def)
next
  case (Some new)
  then have "get_task_by_id_ref (tasks_of \<sigma>) task_id_str = Inr None"
    using assms Status_of_None_iff[of new_status] get_task_by_id_None_iff by auto
  then show ?thesis using Some by (simp add: set_task_status_def)
qed

theorem set_task_status_rejects_witness:
  "set_task_status sample_store ''2'' ''invalid_status'' = (Inr False, sample_store)
   \<and> set_task_status sample_store ''99'' ''done'' = (Inr False, sample_store)"
proof -
  have a: "''invalid_status'' \<notin> set [''pending'', ''in-progress'', ''done'', ''blocked'',
                               ''deferred'', ''review'']"
    by simp
  have b: "get_task_by_id (tasks_of sample_store) ''99'' = Inr None"
    by (simp add: get_simps sample_simps)
  show ?thesis
    using set_task_status_rejects[of "''invalid_status''" sample_store "''2''"] a
      set_task_status_rejects[of "''done''" sample_store "''99''"] b
    by blast
qed

text \<open>
  Claim C2, at one input: a task with one pending subtask, and the subtask is set to
  done. The subtask and then the parent are set to done, the history record is written,
  and the call ends in AttributeError instead of returning a boolean.
\<close>

theorem set_task_status_raises:
  "set_task_status (one_subtask_store Pending) ''1.1'' ''done''
   = (Inl AttributeError,
      \<lparr>tasks_of = [Task 1 ''T1'' Done Medium [] [Subtask 1 ''S1.1'' Done [] 1]],
       task_execution_history = [\<lparr>h_task_id = ''1.1'', h_old_status = Pending,
          h_new_status = Done, h_success = True\<rparr>]\<rparr>)"
  by (simp add: set_task_status_def Status_of_def Status_args_def get_simps sample_simps)

section \<open>Adding a subtask to a missing parent\<close>

text \<open>
  Claim C7. If no top-level task has the given parent id, \<open>add_subtask\<close> raises
  ParentTaskNotFoundError and the collection is what it was.
\<close>

theorem add_subtask_parent_not_found:
  assumes "\<forall>t \<in> set tasks. t_id t \<noteq> parent_task_id"
  shows "add_subtask tasks parent_task_id title description priority dependencies
           = (Inl ParentTaskNotFoundError, tasks)"
proof -
  have "next_index (\<lambda>t. t_id t = parent_task_id) tasks = None"
    using assms by (simp add: next_index_None_iff)
  then show ?thesis by (simp add: add_subtask_def)
qed

theorem add_subtask_parent_not_found_witness:
  "99 \<notin> set (map t_id sample_tasks_list)
   \<and> add_subtask sample_tasks_list 99 ''Subtask'' None Medium []
       = (Inl ParentTaskNotFoundError, sample_tasks_list)"
proof -
  have a: "\<forall>t \<in> set sample_tasks_list. t_id t \<noteq> 99"
    by (simp add: sample_simps)
  show ?thesis
    using a add_subtask_parent_not_found[OF a, of "''Subtask''" None Medium "[]"] by auto
qed

section \<open>The scheduler\<close>

lemma deps_met_eq:
  "deps_met tasks (completed_ids tasks) ds = Inr (list_all (dep_satisfied tasks) ds)"
proof (induction ds)
  case Nil
  show ?case by simp
next
  case (Cons d ds)
  show ?case
  proof (cases d)
    case (DepInt n)
    with Cons show ?thesis by (simp add: dep_satisfied_def)
  next
    case (DepStr s)
    obtain r where r: "get_task_by_id tasks s = Inr r"
      using get_task_by_id_returns by blast
    with Cons DepStr show ?thesis
      by (cases r) (simp_all add: dep_satisfied_def)
  qed
qed

lemma eligible_loop_eq:
  "eligible_loop tasks (completed_ids tasks) ts = Inr (filter (eligible_task tasks) ts)"
  by (induction ts) (simp_all add: deps_met_eq eligible_task_def)

lemma find_next_task_eq:
  "find_next_task tasks =
     (case sort_key sort_key_of (filter (eligible_task tasks) tasks) of
        [] \<Rightarrow> Inr None
      | next_t # _ \<Rightarrow> Inr (Some next_t))"
  by (simp add: find_next_task_def eligible_loop_eq)

lemma sort_key_first:
  assumes "xs \<noteq> []"
  shows "\<exists>r rest. sort_key f xs = r # rest \<and> r \<in> set xs \<and> (\<forall>x \<in> set xs. f r \<le> f x)"
proof -
  have ne: "sort_key f xs \<noteq> []"
    using assms by (metis set_sort set_empty)
  then obtain r rest where rr: "sort_key f xs = r # rest"
    by (cases "sort_key f xs") auto
  have "sorted (map f (r # rest))"
    using sorted_sort_key[of f xs] rr by simp
  then have "\<forall>x \<in> set (r # rest). f r \<le> f x"
    by auto
  moreover have "set (r # rest) = set xs"
    using set_sort[of f xs] rr by simp
  ultimately show ?thesis using rr by auto
qed

lemma sort_key_of_le:
  "sort_key_of r \<le> sort_key_of t \<longleftrightarrow>
     priority_rank (t_priority t) < priority_rank (t_priority r)
     \<or> (priority_rank (t_priority t) = priority_rank (t_priority r) \<and> t_id r \<le> t_id t)"
  by (auto simp: sort_key_of_def less_eq_prod_def)

lemma find_next_task_Some:
  assumes "find_next_task tasks = Inr (Some r)"
  shows "r \<in> set tasks \<and> eligible_task tasks r"
proof -
  let ?el = "filter (eligible_task tasks) tasks"
  obtain rest where "sort_key sort_key_of ?el = r # rest"
    using assms unfolding find_next_task_eq by (auto split: list.splits)
  then have "r \<in> set (sort_key sort_key_of ?el)" by simp
  then have "r \<in> set ?el" by (simp only: set_sort)
  then show ?thesis by simp
qed

text \<open>
  Claim C4. When the collection has an eligible task, \<open>find_next_task\<close> returns an
  eligible task of the highest priority rank (high 3, medium 2, low 1) and, among the
  eligible tasks of that rank, of the smallest id. On the collection of the tests (task 1
  done, task 2 medium and task 3 high, both depending on task 1) it returns task 3.
\<close>

theorem find_next_task_best:
  assumes "\<exists>t \<in> set tasks. eligible_task tasks t"
  shows "(\<exists>r. find_next_task tasks = Inr (Some r) \<and> r \<in> set tasks \<and> eligible_task tasks r
            \<and> (\<forall>t \<in> set tasks. eligible_task tasks t \<longrightarrow>
                  priority_rank (t_priority t) \<le> priority_rank (t_priority r)
                  \<and> (priority_rank (t_priority t) = priority_rank (t_priority r)
                       \<longrightarrow> t_id r \<le> t_id t)))
         \<and> priority_rank High = 3 \<and> priority_rank Medium = 2 \<and> priority_rank Low = 1
         \<and> find_next_task sample_tasks_list = Inr (Some (sample_tasks_list ! 2))"
proof -
  let ?el = "filter (eligible_task tasks) tasks"
  have "?el \<noteq> []" using assms by (auto simp: filter_empty_conv)
  then obtain r rest where r: "sort_key sort_key_of ?el = r # rest" "r \<in> set ?el"
    "\<forall>x \<in> set ?el. sort_key_of r \<le> sort_key_of x"
    using sort_key_first[of ?el sort_key_of] by blast
  have res: "find_next_task tasks = Inr (Some r)"
    using r(1) by (simp add: find_next_task_eq)
  have best: "\<forall>t \<in> set tasks. eligible_task tasks t \<longrightarrow>
                  priority_rank (t_priority t) \<le> priority_rank (t_priority r)
                  \<and> (priority_rank (t_priority t) = priority_rank (t_priority r)
                       \<longrightarrow> t_id r \<le> t_id t)"
  proof (intro ballI impI)
    fix t assume "t \<in> set tasks" "eligible_task tasks t"
    then have "sort_key_of r \<le> sort_key_of t" using r(3) by simp
    then show "priority_rank (t_priority t) \<le> priority_rank (t_priority r)
                  \<and> (priority_rank (t_priority t) = priority_rank (t_priority r)
                       \<longrightarrow> t_id r \<le> t_id t)"
      unfolding sort_key_of_le by auto
  qed
  have ex: "find_next_task sample_tasks_list = Inr (Some (sample_tasks_list ! 2))"
    by (simp add: find_next_task_def completed_ids_def sort_key_of_def sample_simps
          less_eq_prod_def)
  show ?thesis using res r(2) best ex by auto
qed

theorem find_next_task_best_witness:
  "list_ex (eligible_task sample_tasks_list) sample_tasks_list
   \<and> (\<exists>r. find_next_task sample_tasks_list = Inr (Some r)
          \<and> r \<in> set sample_tasks_list \<and> eligible_task sample_tasks_list r
          \<and> t_id r = 3 \<and> t_priority r = High)"
proof -
  have a: "eligible_task sample_tasks_list (sample_tasks_list ! 2)"
    by (simp add: eligible_task_def dep_satisfied_def completed_ids_def sample_simps)
  have m: "sample_tasks_list ! 2 \<in> set sample_tasks_list"
    by (simp add: sample_tasks_list_def)
  have b: "\<exists>t \<in> set sample_tasks_list. eligible_task sample_tasks_list t"
    using a m by blast
  have c: "t_id (sample_tasks_list ! 2) = 3 \<and> t_priority (sample_tasks_list ! 2) = High"
    by (simp add: sample_simps)
  show ?thesis
    using find_next_task_best[OF b] b c by (auto simp: list_ex_iff)
qed

text \<open>
  Claim C5. A task of the collection that declares a dependency which resolves to
  nothing (an integer that is the id of no task, a string that \<open>get_task_by_id\<close> does
  not find) or which is a string without a dot, so neither an integer nor of the shape
  "parentId.subId", is not the task \<open>find_next_task\<close> returns.
\<close>

theorem find_next_task_skips_unresolved:
  assumes "t \<in> set tasks" and "d \<in> set (t_dependencies t)"
    and "(\<exists>n. d = DepInt n \<and> n \<notin> set (map t_id tasks))
         \<or> (\<exists>s. d = DepStr s
               \<and> (CHR ''.'' \<notin> set s \<or> get_task_by_id tasks s = Inr None))"
  shows "find_next_task tasks \<noteq> Inr (Some t)"
proof
  assume "find_next_task tasks = Inr (Some t)"
  then have "eligible_task tasks t" using find_next_task_Some by blast
  then have sat: "dep_satisfied tasks d"
    using assms(2) by (simp add: eligible_task_def list_all_iff)
  from assms(3) show False
  proof (elim disjE exE conjE)
    fix n assume "d = DepInt n" "n \<notin> set (map t_id tasks)"
    then show False using sat by (auto simp: dep_satisfied_def completed_ids_def)
  next
    fix s assume "d = DepStr s" "CHR ''.'' \<notin> set s"
    then show False using sat by (simp add: dep_satisfied_def)
  next
    fix s assume "d = DepStr s" "get_task_by_id tasks s = Inr None"
    then show False using sat by (simp add: dep_satisfied_def)
  qed
qed

theorem find_next_task_skips_unresolved_witness:
  "find_next_task [Task 1 ''T1'' Pending Medium [DepInt 99] []]
     \<noteq> Inr (Some (Task 1 ''T1'' Pending Medium [DepInt 99] []))
   \<and> find_next_task [Task 1 ''T1'' Pending Medium [DepStr ''9.9''] []]
     \<noteq> Inr (Some (Task 1 ''T1'' Pending Medium [DepStr ''9.9''] []))
   \<and> find_next_task [Task 1 ''T1'' Pending Medium [DepStr ''1''] []]
     \<noteq> Inr (Some (Task 1 ''T1'' Pending Medium [DepStr ''1''] []))"
proof -
  let ?a = "Task 1 ''T1'' Pending Medium [DepInt 99] []"
  let ?b = "Task 1 ''T1'' Pending Medium [DepStr ''9.9''] []"
  let ?c = "Task 1 ''T1'' Pending Medium [DepStr ''1''] []"
  have a: "\<exists>n. DepInt 99 = DepInt n \<and> n \<notin> set (map t_id [?a])"
    by (simp add: Task_def)
  have b: "\<exists>s. DepStr ''9.9'' = DepStr s
               \<and> (CHR ''.'' \<notin> set s \<or> get_task_by_id [?b] s = Inr None)"
    by (simp add: Task_def get_simps)
  have c: "\<exists>s. DepStr ''1'' = DepStr s
               \<and> (CHR ''.'' \<notin> set s \<or> get_task_by_id [?c] s = Inr None)"
    by simp
  have "find_next_task [?a] \<noteq> Inr (Some ?a)"
    using find_next_task_skips_unresolved[of ?a "[?a]" "DepInt 99"] a
    by (simp add: Task_def)
  moreover have "find_next_task [?b] \<noteq> Inr (Some ?b)"
    using find_next_task_skips_unresolved[of ?b "[?b]" "DepStr ''9.9''"] b
    by (simp add: Task_def)
  moreover have "find_next_task [?c] \<noteq> Inr (Some ?c)"
    using find_next_task_skips_unresolved[of ?c "[?c]" "DepStr ''1''"] c
    by (simp add: Task_def)
  ultimately show ?thesis by simp
qed

section \<open>Adding tasks and subtasks keeps ids distinct\<close>

lemma valid_deps_returns: "\<exists>vs. valid_deps tasks ds = Inr vs"
proof (induction ds)
  case Nil
  show ?case by simp
next
  case (Cons d ds)
  then obtain vs where "valid_deps tasks ds = Inr vs" by blast
  moreover obtain r where "get_task_by_id tasks (dep_str d) = Inr r"
    using get_task_by_id_returns by blast
  ultimately show ?case by simp
qed

lemma py_max_eq: "xs \<noteq> [] \<Longrightarrow> py_max xs = Max (set xs)"
proof (induction xs rule: py_max.induct)
  case 1
  then show ?case by simp
next
  case (2 x)
  show ?case by simp
next
  case (3 x y ys)
  then show ?case by (simp add: max.commute max.left_commute)
qed

lemma py_max_fresh: "xs \<noteq> [] \<Longrightarrow> py_max xs + 1 \<notin> set xs"
proof
  assume ne: "xs \<noteq> []" and "py_max xs + 1 \<in> set xs"
  then have "py_max xs + 1 \<le> Max (set xs)" by simp
  then show False using py_max_eq[OF ne] by simp
qed

lemma add_new_task_result:
  "\<exists>t. add_new_task tasks title description priority dependencies = (Inr t, tasks @ [t])
       \<and> t_id t = (if tasks = [] then 1 else py_max (map t_id tasks) + 1)
       \<and> t_subtasks t = []"
proof -
  obtain vs where "valid_deps tasks dependencies = Inr vs"
    using valid_deps_returns by blast
  then show ?thesis by (simp add: add_new_task_def Let_def)
qed

lemma add_subtask_result:
  assumes "next_index (\<lambda>t. t_id t = parent_task_id) tasks = Some i"
  shows "\<exists>st. add_subtask tasks parent_task_id title description priority dependencies
           = (Inr st, tasks[i := (tasks ! i)\<lparr>t_subtasks := t_subtasks (tasks ! i) @ [st]\<rparr>])
         \<and> s_id st = (if t_subtasks (tasks ! i) = [] then 1
                       else py_max (map s_id (t_subtasks (tasks ! i))) + 1)"
proof -
  obtain vs where "valid_deps tasks dependencies = Inr vs"
    using valid_deps_returns by blast
  then show ?thesis using assms by (simp add: add_subtask_def Let_def)
qed

lemma ids_unique_append:
  assumes "ids_unique tasks" and "t_id t \<notin> set (map t_id tasks)" and "t_subtasks t = []"
  shows "ids_unique (tasks @ [t])"
  using assms by (simp add: ids_unique_def)

lemma ids_unique_update:
  assumes u: "ids_unique tasks" and i: "i < length tasks"
    and fresh: "s_id st \<notin> set (map s_id (t_subtasks (tasks ! i)))"
  shows "ids_unique (tasks[i := (tasks ! i)\<lparr>t_subtasks := t_subtasks (tasks ! i) @ [st]\<rparr>])"
proof -
  let ?p = "(tasks ! i)\<lparr>t_subtasks := t_subtasks (tasks ! i) @ [st]\<rparr>"
  have ids: "map t_id (tasks[i := ?p]) = map t_id tasks"
    using i by (simp add: map_update list_update_same_conv)
  have "distinct (map s_id (t_subtasks (tasks ! i)))"
    using u i by (simp add: ids_unique_def list_all_length)
  then have p: "distinct (map s_id (t_subtasks ?p))"
    using fresh by simp
  have "\<forall>t \<in> set (tasks[i := ?p]). distinct (map s_id (t_subtasks t))"
  proof
    fix t assume "t \<in> set (tasks[i := ?p])"
    then have "t = ?p \<or> t \<in> set tasks"
      using set_update_subset_insert[of tasks i ?p] by auto
    then show "distinct (map s_id (t_subtasks t))"
      using p u by (auto simp: ids_unique_def list_all_iff)
  qed
  then show ?thesis
    using u ids by (simp add: ids_unique_def list_all_iff)
qed

text \<open>
  Claim C8. In a collection whose task ids are pairwise distinct and whose subtask ids
  are pairwise distinct within each task, the same holds after \<open>add_new_task\<close> and after
  \<open>add_subtask\<close>. \<open>add_new_task\<close> gives the new task id 1 in an empty collection and the
  largest id plus one otherwise; \<open>add_subtask\<close> gives the new subtask id 1 when the
  parent has no subtask and the largest id among the parent's subtasks plus one otherwise.
\<close>

theorem ids_unique_preserved:
  assumes "ids_unique tasks"
  shows "ids_unique (snd (add_new_task tasks title description priority dependencies))
     \<and> ids_unique (snd (add_subtask tasks parent_task_id title description priority
                          dependencies))
     \<and> (\<exists>t. add_new_task tasks title description priority dependencies
               = (Inr t, tasks @ [t])
            \<and> t_id t = (if tasks = [] then 1 else Max (set (map t_id tasks)) + 1))
     \<and> (\<forall>i. next_index (\<lambda>t. t_id t = parent_task_id) tasks = Some i \<longrightarrow>
          (\<exists>st. add_subtask tasks parent_task_id title description priority dependencies
                  = (Inr st, tasks[i := (tasks ! i)\<lparr>t_subtasks :=
                                              t_subtasks (tasks ! i) @ [st]\<rparr>])
               \<and> s_id st = (if t_subtasks (tasks ! i) = [] then 1
                             else Max (set (map s_id (t_subtasks (tasks ! i)))) + 1)))"
proof -
  obtain t where t: "add_new_task tasks title description priority dependencies
                       = (Inr t, tasks @ [t])"
      "t_id t = (if tasks = [] then 1 else py_max (map t_id tasks) + 1)"
      "t_subtasks t = []"
    using add_new_task_result by blast
  have fresh_t: "t_id t \<notin> set (map t_id tasks)"
  proof (cases "tasks = []")
    case True
    then show ?thesis by simp
  next
    case False
    then show ?thesis using t(2) py_max_fresh[of "map t_id tasks"] by simp
  qed
  have c1: "ids_unique (snd (add_new_task tasks title description priority dependencies))"
    using t(1) ids_unique_append[OF assms fresh_t t(3)] by simp
  have c3: "\<exists>t. add_new_task tasks title description priority dependencies
               = (Inr t, tasks @ [t])
            \<and> t_id t = (if tasks = [] then 1 else Max (set (map t_id tasks)) + 1)"
    using t(1,2) py_max_eq[of "map t_id tasks"] by auto
  have sub: "\<exists>st. add_subtask tasks parent_task_id title description priority dependencies
                  = (Inr st, tasks[i := (tasks ! i)\<lparr>t_subtasks :=
                                              t_subtasks (tasks ! i) @ [st]\<rparr>])
               \<and> s_id st = (if t_subtasks (tasks ! i) = [] then 1
                             else Max (set (map s_id (t_subtasks (tasks ! i)))) + 1)
               \<and> s_id st \<notin> set (map s_id (t_subtasks (tasks ! i)))"
    if i: "next_index (\<lambda>t. t_id t = parent_task_id) tasks = Some i" for i
  proof -
    obtain st where st: "add_subtask tasks parent_task_id title description priority
          dependencies
           = (Inr st, tasks[i := (tasks ! i)\<lparr>t_subtasks := t_subtasks (tasks ! i) @ [st]\<rparr>])"
       "s_id st = (if t_subtasks (tasks ! i) = [] then 1
                       else py_max (map s_id (t_subtasks (tasks ! i))) + 1)"
      using add_subtask_result[OF i] by blast
    have "s_id st \<notin> set (map s_id (t_subtasks (tasks ! i)))"
    proof (cases "t_subtasks (tasks ! i) = []")
      case True
      then show ?thesis by simp
    next
      case False
      then show ?thesis
        using st(2) py_max_fresh[of "map s_id (t_subtasks (tasks ! i))"] by simp
    qed
    then show ?thesis
      using st py_max_eq[of "map s_id (t_subtasks (tasks ! i))"] by auto
  qed
  have c2: "ids_unique (snd (add_subtask tasks parent_task_id title description priority
                          dependencies))"
  proof (cases "next_index (\<lambda>t. t_id t = parent_task_id) tasks")
    case None
    then show ?thesis using assms by (simp add: add_subtask_def)
  next
    case (Some i)
    then have "i < length tasks" using next_index_Some by blast
    then show ?thesis
      using sub[OF Some] ids_unique_update[OF assms] by auto
  qed
  show ?thesis using c1 c2 c3 sub by blast
qed

theorem ids_unique_preserved_witness:
  "ids_unique sample_tasks_list
   \<and> ids_unique (snd (add_new_task sample_tasks_list ''Manual Task'' (Some ''Desc'') High
                        [DepInt 1]))
   \<and> ids_unique (snd (add_subtask sample_tasks_list 3 ''Manual Task'' (Some ''Desc'') High
                        [DepInt 1]))"
proof -
  have a: "ids_unique sample_tasks_list"
    by (simp add: ids_unique_def sample_simps)
  show ?thesis
    using a ids_unique_preserved[OF a, of "''Manual Task''" "Some ''Desc''" High "[DepInt 1]" 3]
    by blast
qed

section \<open>Promotion of the parent task\<close>

lemma next_index_map: "next_index (\<lambda>x. f x = v) xs = next_index (\<lambda>y. y = v) (map f xs)"
  by (induction xs) auto

lemma next_index_cong_ids:
  "map f xs = map f ys \<Longrightarrow> next_index (\<lambda>x. f x = v) xs = next_index (\<lambda>x. f x = v) ys"
  using next_index_map[of f v xs] next_index_map[of f v ys] by (simp only:)

lemma get_task_by_id_try_SubtaskAt:
  assumes "get_task_by_id_try tasks s = Inr (Some (SubtaskAt i j))"
  shows "\<exists>pid sid. next_index (\<lambda>t. t_id t = pid) tasks = Some i
           \<and> next_index (\<lambda>st. s_id st = sid) (t_subtasks (tasks ! i)) = Some j"
  using assms unfolding get_task_by_id_try_def
  by (auto split: if_splits list.splits option.splits)

lemma get_task_by_id_ref_SubtaskAt:
  assumes "get_task_by_id_ref tasks s = Inr (Some (SubtaskAt i j))"
  shows "\<exists>pid sid. next_index (\<lambda>t. t_id t = pid) tasks = Some i
           \<and> next_index (\<lambda>st. s_id st = sid) (t_subtasks (tasks ! i)) = Some j"
proof -
  have "get_task_by_id_try tasks s = Inr (Some (SubtaskAt i j))"
    using assms unfolding get_task_by_id_ref_def by (auto split: if_splits sum.splits)
  then show ?thesis by (rule get_task_by_id_try_SubtaskAt)
qed

lemma Status_of_done: "Status_of ''done'' = Some Done"
  by (simp add: Status_of_def Status_args_def)

text \<open>
  Claim C1. Let the identifier resolve to a subtask S that is not yet done and whose
  parent id is the id of the task that owns it, and let \<open>set_task_status\<close> set S to
  done. Then S is done afterwards, and the parent task is set to done if and only if,
  after the update, every subtask of the parent is done and the parent was not done
  before; if some subtask of the parent is not done, the status of the parent is what it
  was. The statement is about the collection after the call.
\<close>

theorem set_task_status_promotes_parent:
  assumes res: "get_task_by_id_ref (tasks_of \<sigma>) task_id_str = Inr (Some (SubtaskAt i j))"
    and nd: "s_status (t_subtasks (tasks_of \<sigma> ! i) ! j) \<noteq> Done"
    and own: "s_parent_task_id (t_subtasks (tasks_of \<sigma> ! i) ! j) = t_id (tasks_of \<sigma> ! i)"
  shows "let parent = tasks_of \<sigma> ! i;
             parent' = tasks_of (snd (set_task_status \<sigma> task_id_str ''done'')) ! i
         in t_subtasks parent' = (t_subtasks parent)[j := (t_subtasks parent ! j)\<lparr>s_status := Done\<rparr>]
          \<and> (t_status parent \<noteq> Done \<and> t_status parent' = Done
               \<longleftrightarrow> list_all (\<lambda>st. s_status st = Done) (t_subtasks parent')
                    \<and> t_status parent \<noteq> Done)
          \<and> (\<not> list_all (\<lambda>st. s_status st = Done) (t_subtasks parent')
               \<longrightarrow> t_status parent' = t_status parent)"
proof -
  let ?T = "tasks_of \<sigma>"
  let ?S = "t_subtasks (?T ! i) ! j"
  let ?subs1 = "(t_subtasks (?T ! i))[j := ?S\<lparr>s_status := Done\<rparr>]"
  let ?T1 = "?T[i := (?T ! i)\<lparr>t_subtasks := ?subs1\<rparr>]"
  obtain pid sid where ix: "next_index (\<lambda>t. t_id t = pid) ?T = Some i"
      "next_index (\<lambda>st. s_id st = sid) (t_subtasks (?T ! i)) = Some j"
    using get_task_by_id_ref_SubtaskAt[OF res] by blast
  have i: "i < length ?T" and pid: "t_id (?T ! i) = pid"
    using next_index_Some[OF ix(1)] by auto
  have j: "j < length (t_subtasks (?T ! i))"
    using next_index_Some[OF ix(2)] by auto
  have T1i: "?T1 ! i = (?T ! i)\<lparr>t_subtasks := ?subs1\<rparr>"
    using i by simp
  have ne: "?subs1 \<noteq> []" using j by auto
  have ids: "map t_id ?T1 = map t_id ?T"
    using i by (simp add: map_update list_update_same_conv)
  have par: "s_parent_task_id (t_subtasks (?T1 ! i) ! j) = pid"
    using T1i j own pid by simp
  have k: "next_index (\<lambda>t. t_id t = pid) ?T1 = Some i"
    using next_index_cong_ids[OF ids, of pid] ix(1) by simp
  let ?promote = "list_all (\<lambda>st. s_status st = Done) ?subs1 \<and> t_status (?T ! i) \<noteq> Done"
  have pr: "propagate ?T1 (SubtaskAt i j) Done =
     (if ?promote then (Inl AttributeError, ?T1[i := (?T1 ! i)\<lparr>t_status := Done\<rparr>])
      else (Inr True, ?T1))"
    using par k ne T1i by simp
  have tasks': "tasks_of (snd (set_task_status \<sigma> task_id_str ''done'')) =
     (if ?promote then ?T1[i := (?T1 ! i)\<lparr>t_status := Done\<rparr>] else ?T1)"
    using res nd pr by (simp add: set_task_status_def Status_of_done Let_def)
  show ?thesis
  proof (cases ?promote)
    case True
    then show ?thesis using tasks' T1i i by (simp add: Let_def)
  next
    case False
    then show ?thesis using tasks' T1i i by (auto simp: Let_def)
  qed
qed

theorem set_task_status_promotes_parent_witness:
  "t_status (tasks_of (snd (set_task_status (one_subtask_store Pending) ''1.1'' ''done'')) ! 0)
     = Done
   \<and> t_status (tasks_of (one_subtask_store Pending) ! 0) = Pending
   \<and> t_status (tasks_of (snd (set_task_status sample_store ''3.1'' ''done'')) ! 2) = Pending"
proof -
  have a: "get_task_by_id_ref (tasks_of (one_subtask_store Pending)) ''1.1''
             = Inr (Some (SubtaskAt 0 0))"
    by (simp add: get_simps sample_simps)
  have b: "s_status (t_subtasks (tasks_of (one_subtask_store Pending) ! 0) ! 0) \<noteq> Done"
    by (simp add: sample_simps)
  have c: "s_parent_task_id (t_subtasks (tasks_of (one_subtask_store Pending) ! 0) ! 0)
             = t_id (tasks_of (one_subtask_store Pending) ! 0)"
    by (simp add: sample_simps)
  have d: "get_task_by_id_ref (tasks_of sample_store) ''3.1'' = Inr (Some (SubtaskAt 2 0))"
    by (simp add: get_simps sample_simps)
  have e: "s_status (t_subtasks (tasks_of sample_store ! 2) ! 0) \<noteq> Done"
    by (simp add: sample_simps)
  have f: "s_parent_task_id (t_subtasks (tasks_of sample_store ! 2) ! 0)
             = t_id (tasks_of sample_store ! 2)"
    by (simp add: sample_simps)
  have p: "t_status (tasks_of (one_subtask_store Pending) ! 0) = Pending"
    "t_subtasks (tasks_of (one_subtask_store Pending) ! 0) = [Subtask 1 ''S1.1'' Pending [] 1]"
    by (simp_all add: sample_simps)
  have q: "t_status (tasks_of sample_store ! 2) = Pending"
    "t_subtasks (tasks_of sample_store ! 2)
       = [Subtask 1 ''Sub 3.1'' Pending [] 3, Subtask 2 ''Sub 3.2'' Pending [DepInt 1] 3]"
    by (simp_all add: sample_simps)
  have "t_status (tasks_of (snd (set_task_status (one_subtask_store Pending) ''1.1'' ''done'')) ! 0)
     = Done"
    using set_task_status_promotes_parent[OF a b c] p
    by (simp add: Let_def Subtask_def)
  moreover have "t_status (tasks_of (snd (set_task_status sample_store ''3.1'' ''done'')) ! 2)
     = Pending"
    using set_task_status_promotes_parent[OF d e f] q
    by (simp add: Let_def Subtask_def)
  ultimately show ?thesis using p(1) by simp
qed

section \<open>The dependency graph analyzer on acyclic graphs\<close>

lemma successors_dep_edges:
  assumes "b \<in> set (successors (build_graph tasks) a)"
  shows "(a, b) \<in> set (dep_edges tasks)"
proof -
  let ?nodes = "graph_nodes tasks"
  from assms obtain e where e: "e \<in> set (build_graph tasks)" "fst e = a" "b \<in> set (snd e)"
    unfolding successors_def by auto
  then obtain l ds where n: "(l, ds) \<in> set ?nodes"
      and e': "e = (l, filter (\<lambda>m. m \<in> set (map fst ?nodes)) (map dep_str ds))"
    unfolding build_graph_def Let_def by auto
  have "b \<in> set (filter (\<lambda>b. b \<in> fst ` set ?nodes) (map dep_str ds))"
    using e(3) e' by simp
  moreover have "l = a" using e(2) e' by simp
  ultimately have "(a, b) \<in> set (map (\<lambda>b. (l, b))
                     (filter (\<lambda>b. b \<in> fst ` set ?nodes) (map dep_str ds)))"
    by auto
  then have "\<exists>x \<in> set ?nodes. (a, b) \<in> set ((\<lambda>(a, ds). map (\<lambda>b. (a, b))
                   (filter (\<lambda>b. b \<in> fst ` set ?nodes) (map dep_str ds))) x)"
    using n by (intro bexI[of _ "(l, ds)"]) simp_all
  then show ?thesis
    unfolding dep_edges_def Let_def set_concat set_map by blast
qed

lemma visit_no_cycle:
  assumes ac: "acyclic E"
  shows "(\<forall>a b. b \<in> set (successors g a) \<longrightarrow> (a, b) \<in> E)
           \<Longrightarrow> (\<forall>x \<in> set path. (x, n) \<in> E\<^sup>+) \<Longrightarrow> \<exists>v. visit g path visited n = Inr v"
    and "(\<forall>a b. b \<in> set (successors g a) \<longrightarrow> (a, b) \<in> E)
           \<Longrightarrow> (\<forall>m \<in> set ms. \<forall>x \<in> set path. (x, m) \<in> E\<^sup>+)
           \<Longrightarrow> \<exists>v. visit_all g path visited ms = Inr v"
proof (induction g path visited n and g path visited ms rule: visit_visit_all.induct)
  case (1 g path visited n)
  have notin: "n \<notin> set path"
  proof
    assume "n \<in> set path"
    then have "(n, n) \<in> E\<^sup>+" using "1.prems"(2) by blast
    then show False using ac by (simp add: acyclic_def)
  qed
  show ?case
  proof (cases "n \<in> set visited \<or> n \<notin> fst ` set g")
    case True
    then show ?thesis using notin by (subst visit.simps) auto
  next
    case False
    have "\<forall>m \<in> set (successors g n). \<forall>x \<in> set (n # path). (x, m) \<in> E\<^sup>+"
    proof (intro ballI)
      fix m x assume m: "m \<in> set (successors g n)" and x: "x \<in> set (n # path)"
      have nm: "(n, m) \<in> E" using m "1.prems"(1) by blast
      show "(x, m) \<in> E\<^sup>+"
      proof (cases "x = n")
        case True
        then show ?thesis using nm by blast
      next
        case False
        then have "(x, n) \<in> E\<^sup>+" using x "1.prems"(2) by auto
        then show ?thesis using nm by (rule trancl_into_trancl)
      qed
    qed
    then obtain v where "visit_all g (n # path) visited (successors g n) = Inr v"
      using "1.IH" notin False "1.prems"(1) by blast
    then show ?thesis using notin False by (subst visit.simps) simp
  qed
next
  case (2 g path visited)
  show ?case by simp
next
  case (3 g path visited m ms)
  have "\<forall>x \<in> set path. (x, m) \<in> E\<^sup>+" using "3.prems"(2) by simp
  then obtain v where v: "visit g path visited m = Inr v"
    using "3.IH"(1) "3.prems"(1) by blast
  have "\<forall>m \<in> set ms. \<forall>x \<in> set path. (x, m) \<in> E\<^sup>+" using "3.prems"(2) by simp
  then obtain w where "visit_all g path v ms = Inr w"
    using "3.IH"(2)[OF v] "3.prems"(1) by blast
  then show ?case using v by simp
qed

text \<open>
  Claim C9. If the dependency graph of the collection, with tasks and subtasks as nodes
  and an edge only to a dependency whose target is a node of the collection, has no
  cycle, \<open>find_circular_dependencies\<close> returns None; so it does for the empty
  collection. A reference to a task or subtask that is not in the collection is no edge,
  and so does not make a cycle reported.
\<close>

theorem find_circular_dependencies_acyclic:
  assumes "acyclic (set (dep_edges tasks))"
  shows "find_circular_dependencies tasks = None \<and> find_circular_dependencies [] = None"
proof -
  have none: "find_circular_dependencies ts = None" if ac: "acyclic (set (dep_edges ts))" for ts
  proof -
    have "\<exists>v. visit_all (build_graph ts) [] [] (map fst (build_graph ts)) = Inr v"
      by (rule visit_no_cycle(2)[OF ac]) (auto intro: successors_dep_edges)
    then show ?thesis by (auto simp: find_circular_dependencies_def Let_def)
  qed
  have "dep_edges [] = []"
    by (simp add: dep_edges_def graph_nodes_def)
  then have "acyclic (set (dep_edges []))" by (simp add: acyclic_def)
  then show ?thesis using none[OF assms] none[of "[]"] by simp
qed

lemmas graph_simps = dep_edges_def graph_nodes_def task_label_def subtask_label_def py_str_def
  digit_char_def dep_str_def

theorem find_circular_dependencies_acyclic_witness:
  "find_circular_dependencies [Task 1 ''T1'' Pending Medium [DepInt 99] []] = None
   \<and> find_circular_dependencies
       [Task 1 ''T1'' Pending Medium [] [],
        Task 2 ''T2'' Pending Medium [DepInt 1] [],
        Task 3 ''T3'' Pending Medium [DepInt 1, DepInt 2] []] = None"
proof -
  let ?a = "[Task 1 ''T1'' Pending Medium [DepInt 99] []]"
  let ?b = "[Task 1 ''T1'' Pending Medium [] [],
        Task 2 ''T2'' Pending Medium [DepInt 1] [],
        Task 3 ''T3'' Pending Medium [DepInt 1, DepInt 2] []]"
  have "dep_edges ?a = []"
    by (simp add: graph_simps Task_def)
  then have a: "acyclic (set (dep_edges ?a))" by (simp add: acyclic_def)
  have eb: "dep_edges ?b = [(''2'', ''1''), (''3'', ''1''), (''3'', ''2'')]"
    by (simp add: graph_simps Task_def)
  have "acyclic (set [(''2'', ''1''), (''3'', ''1''), (''3'', ''2'')])"
  proof (rule acyclicI_order)
    fix x y :: string
    assume "(x, y) \<in> set [(''2'', ''1''), (''3'', ''1''), (''3'', ''2'')]"
    then show "(if y = ''1'' then 0 else if y = ''2'' then 1 else (2::nat))
             < (if x = ''1'' then 0 else if x = ''2'' then 1 else (2::nat))"
      by auto
  qed
  then have b: "acyclic (set (dep_edges ?b))"
    by (simp only: eb)
  show ?thesis
    using find_circular_dependencies_acyclic[OF a] find_circular_dependencies_acyclic[OF b]
    by simp
qed

section \<open>The read operations change nothing\<close>

lemma next_task_st_eq:
  "i + k = length (tasks_of \<sigma>) \<Longrightarrow>
     next_task_st task_id i k \<sigma> =
       (map_option (\<lambda>j. i + j) (next_index (\<lambda>t. t_id t = task_id) (drop i (tasks_of \<sigma>))), \<sigma>)"
proof (induction k arbitrary: i)
  case 0
  then show ?case by simp
next
  case (Suc k)
  then have i: "i < length (tasks_of \<sigma>)" by simp
  then have d: "drop i (tasks_of \<sigma>) = tasks_of \<sigma> ! i # drop (Suc i) (tasks_of \<sigma>)"
    by (simp add: Cons_nth_drop_Suc)
  have "Suc i + k = length (tasks_of \<sigma>)" using Suc.prems by simp
  then have ih: "next_task_st task_id (Suc i) k \<sigma> =
       (map_option (\<lambda>j. Suc i + j)
          (next_index (\<lambda>t. t_id t = task_id) (drop (Suc i) (tasks_of \<sigma>))), \<sigma>)"
    by (rule Suc.IH)
  show ?case
    by (simp add: read_task_def d ih option.map_comp comp_def del: drop_Suc)
qed

lemma find_task_st_eq:
  "find_task_st task_id \<sigma> = (next_index (\<lambda>t. t_id t = task_id) (tasks_of \<sigma>), \<sigma>)"
  using next_task_st_eq[of 0 "length (tasks_of \<sigma>)" \<sigma> task_id]
  by (simp add: find_task_st_def read_len_def option.map_ident)

lemma get_task_by_id_try_st_eq:
  "get_task_by_id_try_st task_id_str \<sigma> = (get_task_by_id_try (tasks_of \<sigma>) task_id_str, \<sigma>)"
  unfolding get_task_by_id_try_st_def get_task_by_id_try_def
  by (simp add: find_task_st_eq read_task_def split: list.splits option.splits)

lemma get_task_by_id_st_eq:
  "get_task_by_id_st task_id_str \<sigma> = (get_task_by_id (tasks_of \<sigma>) task_id_str, \<sigma>)"
  unfolding get_task_by_id_st_def get_task_by_id_def get_task_by_id_ref_def
  by (simp add: get_task_by_id_try_st_eq read_item_def split: sum.splits option.splits)

lemma completed_ids_st_eq:
  "i + k = length (tasks_of \<sigma>) \<Longrightarrow>
     completed_ids_st i k completed \<sigma> =
       (completed @ map t_id (filter (\<lambda>t. t_status t = Done) (drop i (tasks_of \<sigma>))), \<sigma>)"
proof (induction k arbitrary: i completed)
  case 0
  then show ?case by simp
next
  case (Suc k)
  then have i: "i < length (tasks_of \<sigma>)" by simp
  then have d: "drop i (tasks_of \<sigma>) = tasks_of \<sigma> ! i # drop (Suc i) (tasks_of \<sigma>)"
    by (simp add: Cons_nth_drop_Suc)
  have s: "Suc i + k = length (tasks_of \<sigma>)" using Suc.prems by simp
  show ?case
    by (simp add: read_task_def d Suc.IH[OF s] del: drop_Suc)
qed

lemma deps_met_st_eq:
  "deps_met_st completed ds \<sigma> = (deps_met (tasks_of \<sigma>) completed ds, \<sigma>)"
proof (induction ds)
  case Nil
  show ?case by simp
next
  case (Cons d ds)
  show ?case
  proof (cases d)
    case (DepInt n)
    then show ?thesis using Cons by simp
  next
    case (DepStr s)
    then show ?thesis using Cons
      by (simp add: get_task_by_id_st_eq split: sum.splits option.splits)
  qed
qed

lemma eligible_st_eq:
  "i + k = length (tasks_of \<sigma>) \<Longrightarrow>
     eligible_st completed i k eligible \<sigma> =
       (case eligible_loop (tasks_of \<sigma>) completed (drop i (tasks_of \<sigma>)) of
          Inl e \<Rightarrow> Inl e
        | Inr r \<Rightarrow> Inr (eligible @ r), \<sigma>)"
proof (induction k arbitrary: i eligible)
  case 0
  then show ?case by simp
next
  case (Suc k)
  then have i: "i < length (tasks_of \<sigma>)" by simp
  then have d: "drop i (tasks_of \<sigma>) = tasks_of \<sigma> ! i # drop (Suc i) (tasks_of \<sigma>)"
    by (simp add: Cons_nth_drop_Suc)
  have s: "Suc i + k = length (tasks_of \<sigma>)" using Suc.prems by simp
  show ?case
    by (simp add: read_task_def d Suc.IH[OF s] deps_met_st_eq del: drop_Suc
          split: sum.splits)
qed

lemma find_next_task_st_eq:
  "find_next_task_st \<sigma> = (find_next_task (tasks_of \<sigma>), \<sigma>)"
proof -
  have c: "completed_ids_st 0 (length (tasks_of \<sigma>)) [] \<sigma> = (completed_ids (tasks_of \<sigma>), \<sigma>)"
    using completed_ids_st_eq[of 0 "length (tasks_of \<sigma>)" \<sigma> "[]"]
    by (simp add: completed_ids_def)
  have e: "eligible_st (completed_ids (tasks_of \<sigma>)) 0 (length (tasks_of \<sigma>)) [] \<sigma> =
       (eligible_loop (tasks_of \<sigma>) (completed_ids (tasks_of \<sigma>)) (tasks_of \<sigma>), \<sigma>)"
    using eligible_st_eq[of 0 "length (tasks_of \<sigma>)" \<sigma> "completed_ids (tasks_of \<sigma>)" "[]"]
    by (simp split: sum.splits)
  show ?thesis
    by (simp add: find_next_task_st_def find_next_task_def read_len_def c e
          split: sum.splits list.splits)
qed

text \<open>
  Claim C10. After \<open>get_task_by_id\<close> and after \<open>find_next_task\<close>, for every input, the
  store is what it was before the call: the collection, with every field of every task
  and subtask and the order of the lists, and the execution history. Both functions are
  taken statement by statement on the store; they also return what the functions of the
  sections above compute.
\<close>

theorem read_operations_unchanged:
  "snd (get_task_by_id_st task_id_str \<sigma>) = \<sigma>
   \<and> snd (find_next_task_st \<sigma>) = \<sigma>
   \<and> fst (get_task_by_id_st task_id_str \<sigma>) = get_task_by_id (tasks_of \<sigma>) task_id_str
   \<and> fst (find_next_task_st \<sigma>) = find_next_task (tasks_of \<sigma>)"
  by (simp add: get_task_by_id_st_eq find_next_task_st_eq)

theorem read_operations_unchanged_witness:
  "snd (get_task_by_id_st ''3.1'' sample_store) = sample_store
   \<and> snd (find_next_task_st sample_store) = sample_store"
  using read_operations_unchanged[of "''3.1''" sample_store] by simp

end
